theory Spec2Isabelle
  imports Complex_Main "HOL-Library.AList" "HOL-Library.Char_ord" "HOL-Library.List_Lexorder"
begin

section \<open>Python values used by utils/nmn_datasets.py\<close>

text \<open>
  Exceptions are values. \<open>AssertionError\<close> carries the message of the failed
  \<^verbatim>\<open>assert\<close>, \<open>NameError\<close> the name that could not be resolved.
\<close>

datatype error =
    AssertionError string
  | NameError string
  | ValueError
  | KeyError
  | IndexError
  | ZeroDivisionError

text \<open>\<^verbatim>\<open>xs.index(x)\<close>: the first position of \<open>x\<close>, \<open>ValueError\<close> when absent.\<close>

fun index_from :: "nat \<Rightarrow> 'a list \<Rightarrow> 'a \<Rightarrow> nat option" where
  "index_from i [] x = None"
| "index_from i (y # ys) x = (if y = x then Some i else index_from (Suc i) ys x)"

definition py_index :: "'a list \<Rightarrow> 'a \<Rightarrow> error + nat" where
  "py_index xs x = (case index_from 0 xs x of None \<Rightarrow> Inl ValueError | Some i \<Rightarrow> Inr i)"

text \<open>\<^verbatim>\<open>xs[:n]\<close>: a negative bound counts from the end.\<close>

definition py_slice_to :: "'a list \<Rightarrow> int \<Rightarrow> 'a list" where
  "py_slice_to xs n =
     (if n < 0 then take (nat (int (length xs) + n)) xs else take (nat n) xs)"

text \<open>\<^verbatim>\<open>sep.join(strs)\<close>.\<close>

fun join :: "string \<Rightarrow> string list \<Rightarrow> string" where
  "join sep [] = []"
| "join sep [s] = s"
| "join sep (s # t # ts) = s @ sep @ join sep (t # ts)"

text \<open>A list comprehension whose body may raise: the first exception wins.\<close>

fun collect :: "(error + 'a) list \<Rightarrow> error + 'a list" where
  "collect [] = Inr []"
| "collect (r # rs) =
     (case r of Inl e \<Rightarrow> Inl e
      | Inr x \<Rightarrow> (case collect rs of Inl e \<Rightarrow> Inl e | Inr xs \<Rightarrow> Inr (x # xs)))"

section \<open>The underlying sample source\<close>

text \<open>
  The wrapped dataset is a collaborator: an ordered list of class names and the samples,
  each a pair of a raw sample and its flat label. Iterating it yields the samples in
  order; indexing outside the range raises \<open>IndexError\<close>.
\<close>

record 'a dataset =
  dataset_classes :: "string list"
  dataset_samples :: "('a \<times> int) list"

definition dataset_getitem :: "'a dataset \<Rightarrow> int \<Rightarrow> error + ('a \<times> int)" where
  "dataset_getitem ds i =
     (if 0 \<le> i \<and> i < int (length (dataset_samples ds))
      then Inr (dataset_samples ds ! nat i) else Inl IndexError)"

section \<open>IncludeLabelsDataset and ExcludeLabelsDataset\<close>

text \<open>
  \<open>include_labels\<close> is a tuple, a list or a set of labels. The code only tests it for
  emptiness and membership, so a list stands for all three.
\<close>

record 'a IncludeLabelsDataset =
  il_dataset :: "'a dataset"
  il_include_labels :: "int list"
  il_num_samples :: int
  il_new_to_old :: "nat list"

text \<open>
  The loop of \<open>build_index_mapping\<close>:
  \<^verbatim>\<open>for old, (_, label) in enumerate(self.dataset):
      if label in self.include_labels: new_to_old.append(old)\<close>
\<close>

fun index_mapping_loop :: "int list \<Rightarrow> nat \<Rightarrow> ('a \<times> int) list \<Rightarrow> nat list \<Rightarrow> nat list" where
  "index_mapping_loop include_labels old [] new_to_old = new_to_old"
| "index_mapping_loop include_labels old ((_, label) # rest) new_to_old =
     index_mapping_loop include_labels (Suc old) rest
       (if label \<in> set include_labels then new_to_old @ [old] else new_to_old)"

definition build_index_mapping :: "'a dataset \<Rightarrow> int list \<Rightarrow> int \<Rightarrow> nat list" where
  "build_index_mapping ds include_labels num_samples =
     (let new_to_old = index_mapping_loop include_labels 0 (dataset_samples ds) []
      in if num_samples \<noteq> 0 then py_slice_to new_to_old num_samples else new_to_old)"

definition no_labels_message :: string where
  "no_labels_message = ''No labels are included in `include_labels`''"

definition IncludeLabelsDataset_init ::
  "'a dataset \<Rightarrow> int list \<Rightarrow> int \<Rightarrow> error + 'a IncludeLabelsDataset" where
  "IncludeLabelsDataset_init ds include_labels num_samples =
     (if include_labels = [] then Inl (AssertionError no_labels_message)
      else Inr \<lparr> il_dataset = ds, il_include_labels = include_labels,
                 il_num_samples = num_samples,
                 il_new_to_old = build_index_mapping ds include_labels num_samples \<rparr>)"

text \<open>
  \<open>__getitem__\<close> reads \<^verbatim>\<open>new_to_old[new_]\<close>, not \<^verbatim>\<open>self.new_to_old[new_]\<close>. The name
  is neither a local of the method, nor a global of the module, nor a builtin, so the
  lookup raises \<open>NameError\<close> before the index or the wrapped dataset is read.
\<close>

definition IncludeLabelsDataset_getitem ::
  "'a IncludeLabelsDataset \<Rightarrow> int \<Rightarrow> error + ('a \<times> int)" where
  "IncludeLabelsDataset_getitem self new_index = Inl (NameError ''new_to_old'')"

definition IncludeLabelsDataset_len :: "'a IncludeLabelsDataset \<Rightarrow> nat" where
  "IncludeLabelsDataset_len self = length (il_new_to_old self)"

text \<open>
  \<open>ExcludeLabelsDataset.__init__\<close>: \<^verbatim>\<open>set(range(k)) - set(exclude_labels)\<close> with
  \<open>k = len(dataset.classes)\<close>, handed to the constructor of the include view.
\<close>

definition ExcludeLabelsDataset_init ::
  "'a dataset \<Rightarrow> int list \<Rightarrow> int \<Rightarrow> error + 'a IncludeLabelsDataset" where
  "ExcludeLabelsDataset_init ds exclude_labels num_samples =
     (let k = length (dataset_classes ds);
          include_labels = filter (\<lambda>l. l \<notin> set exclude_labels) (map int [0..<k])
      in IncludeLabelsDataset_init ds include_labels num_samples)"

text \<open>
  What a caller can observe of a view (or of its failed construction): the error, or the
  length, the wrapped source with the kept indices, and the result of every access.
\<close>

definition same_view ::
  "error + 'a IncludeLabelsDataset \<Rightarrow> error + 'a IncludeLabelsDataset \<Rightarrow> bool" where
  "same_view r r' =
     (case (r, r') of
        (Inl e, Inl e') \<Rightarrow> e = e'
      | (Inr v, Inr v') \<Rightarrow>
          IncludeLabelsDataset_len v = IncludeLabelsDataset_len v' \<and>
          il_dataset v = il_dataset v' \<and> il_new_to_old v = il_new_to_old v' \<and>
          (\<forall>i. IncludeLabelsDataset_getitem v i = IncludeLabelsDataset_getitem v' i)
      | _ \<Rightarrow> False)"

text \<open>The 4-item source of the specification's example, labels 0, 1, 0, 2.\<close>

definition example_source :: "string dataset" where
  "example_source =
     \<lparr> dataset_classes = [''a'', ''b'', ''c''],
       dataset_samples = [(''s0'', 0), (''s1'', 1), (''s2'', 0), (''s3'', 2)] \<rparr>"

section \<open>The hierarchy file and the flat class list\<close>

text \<open>
  A parsed XML element: its tag, its attributes and its children in document order.
  \<open>get\<close> reads an attribute, \<open>iter\<close> walks the element and its descendants in
  document order. The flat class list \<open>wnids\<close> is the list of stripped lines of the
  file at \<open>path_wnids\<close>.
\<close>

datatype element =
  Element (tag: string) (attrib: "(string \<times> string) list") (getchildren: "element list")

definition get :: "element \<Rightarrow> string \<Rightarrow> string option" where
  "get e k = map_of (attrib e) k"

fun iter :: "element \<Rightarrow> element list" where
  "iter (Element t a cs) = Element t a cs # concat (map iter cs)"

text \<open>
  Modelled from the spec: \<open>get_leaves\<close> of utils/xmlutils.py, which is not among the
  sources. The specification enumerates all leaf descendants of a child, a vertex being
  a leaf iff it has zero children; a child without children is its own only leaf.
\<close>

definition get_leaves :: "element \<Rightarrow> element list" where
  "get_leaves e = filter (\<lambda>v. getchildren v = []) (iter e)"

text \<open>
  \<^verbatim>\<open>tree.find('.//synset[@wnid="{}"]'.format(wnid))\<close>: the first descendant of the
  root, in document order, with tag \<open>synset\<close> and the given \<open>wnid\<close> attribute
  (identifiers are taken to contain no double quote).
\<close>

definition find_synset :: "element \<Rightarrow> string \<Rightarrow> element option" where
  "find_synset tree w =
     List.find (\<lambda>e. tag e = ''synset'' \<and> get e ''wnid'' = Some w)
       (concat (map iter (getchildren tree)))"

section \<open>Node\<close>

text \<open>
  The dictionary \<open>mapping\<close> is an association list in insertion order with distinct
  keys: \<open>AList.update\<close> overwrites in place or appends, as assignment to a Python dict
  does; its \<open>len\<close> is the length of the list.
\<close>

record Node =
  wnid :: string
  original_classes :: "string list"
  num_original_classes :: nat
  mapping :: "(nat \<times> nat) list"
  num_children :: nat
  num_classes :: nat
  new_to_old :: "nat list list"
  classes :: "string list"
  cached_probabilities :: "rat list option"
  cached_class_weights :: "rat list option"
  children_wnids :: "string option list"

text \<open>
  \<^verbatim>\<open>for leaf in get_leaves(child):
      wnid = leaf.get('wnid'); old_index = wnids.index(wnid)
      self.mapping[old_index] = new_index\<close>
  A leaf without the attribute gives \<open>None\<close>, which \<open>wnids.index\<close> does not find.
\<close>

fun mapping_leaves ::
  "string list \<Rightarrow> nat \<Rightarrow> element list \<Rightarrow> (nat \<times> nat) list \<Rightarrow> error + (nat \<times> nat) list" where
  "mapping_leaves wnids new_index [] m = Inr m"
| "mapping_leaves wnids new_index (leaf # leaves) m =
     (case get leaf ''wnid'' of
        None \<Rightarrow> Inl ValueError
      | Some w \<Rightarrow>
          (case py_index wnids w of
             Inl e \<Rightarrow> Inl e
           | Inr old_index \<Rightarrow>
               mapping_leaves wnids new_index leaves (AList.update old_index new_index m)))"

text \<open>\<^verbatim>\<open>for new_index, child in enumerate(children): ...\<close>\<close>

fun mapping_children ::
  "string list \<Rightarrow> nat \<Rightarrow> element list \<Rightarrow> (nat \<times> nat) list \<Rightarrow> error + (nat \<times> nat) list" where
  "mapping_children wnids new_index [] m = Inr m"
| "mapping_children wnids new_index (child # children) m =
     (case mapping_leaves wnids new_index (get_leaves child) m of
        Inl e \<Rightarrow> Inl e
      | Inr m' \<Rightarrow> mapping_children wnids (Suc new_index) children m')"

text \<open>
  \<^verbatim>\<open>for old_index in range(self.num_original_classes):
      if old_index not in self.mapping: self.mapping[old_index] = n\<close>
\<close>

fun fill_other :: "nat list \<Rightarrow> nat \<Rightarrow> (nat \<times> nat) list \<Rightarrow> (nat \<times> nat) list" where
  "fill_other [] n m = m"
| "fill_other (old_index # rest) n m =
     fill_other rest n
       (if map_of m old_index = None then AList.update old_index n m else m)"

text \<open>
  \<^verbatim>\<open>for old_index in range(self.num_original_classes):
      new_index = self.mapping[old_index]
      self.new_to_old[new_index].append(old_index)\<close>
\<close>

fun new_to_old_loop ::
  "(nat \<times> nat) list \<Rightarrow> nat list \<Rightarrow> nat list list \<Rightarrow> error + nat list list" where
  "new_to_old_loop m [] buckets = Inr buckets"
| "new_to_old_loop m (old_index # rest) buckets =
     (case map_of m old_index of
        None \<Rightarrow> Inl KeyError
      | Some new_index \<Rightarrow>
          if new_index < length buckets
          then new_to_old_loop m rest
                 (buckets[new_index := buckets ! new_index @ [old_index]])
          else Inl IndexError)"

definition list_getitem :: "'a list \<Rightarrow> nat \<Rightarrow> error + 'a" where
  "list_getitem xs i = (if i < length xs then Inr (xs ! i) else Inl IndexError)"

text \<open>
  \<^verbatim>\<open>','.join([self.original_classes[old_index] for old_index in old_indices])\<close>
\<close>

definition class_name :: "string list \<Rightarrow> nat list \<Rightarrow> error + string" where
  "class_name original old_indices =
     (case collect (map (list_getitem original) old_indices) of
        Inl e \<Rightarrow> Inl e
      | Inr names \<Rightarrow> Inr (join '','' names))"

definition Node_init ::
  "string \<Rightarrow> element \<Rightarrow> string list \<Rightarrow> string list \<Rightarrow> error + Node" where
  "Node_init w tree wnids cls =
     (case find_synset tree w of
        None \<Rightarrow> Inl (AssertionError (''Failed to find node with wnid '' @ w))
      | Some node \<Rightarrow>
          let children = getchildren node; n = length children in
          if \<not> n > 0 then Inl (AssertionError ''Cannot build dataset for leaf node.'')
          else
            (case mapping_children wnids 0 children [] of
               Inl e \<Rightarrow> Inl e
             | Inr m \<Rightarrow>
                 let k = length wnids;
                     nc = (if length m < k then n + 1 else n);
                     m' = fill_other [0..<k] n m
                 in
                 (case new_to_old_loop m' [0..<k] (replicate nc []) of
                    Inl e \<Rightarrow> Inl e
                  | Inr buckets \<Rightarrow>
                      (case (if cls \<noteq> [] then collect (map (class_name cls) buckets)
                             else Inr []) of
                         Inl e \<Rightarrow> Inl e
                       | Inr names \<Rightarrow>
                           Inr \<lparr> wnid = w, original_classes = cls,
                                 num_original_classes = k, mapping = m',
                                 num_children = n, num_classes = nc,
                                 new_to_old = buckets, classes = names,
                                 cached_probabilities = None,
                                 cached_class_weights = None,
                                 children_wnids = map (\<lambda>c. get c ''wnid'') children \<rparr>))))"

definition class_counts :: "Node \<Rightarrow> nat list" where
  "class_counts self = map length (new_to_old self)"

text \<open>\<^verbatim>\<open>min(xs)\<close> raises \<open>ValueError\<close> on an empty list.\<close>

definition py_min :: "nat list \<Rightarrow> error + nat" where
  "py_min xs = (case xs of [] \<Rightarrow> Inl ValueError | x # rest \<Rightarrow> Inr (fold min rest x))"

text \<open>
  \<^verbatim>\<open>[min(1, reference / len(old_indices)) for old_indices in self.new_to_old]\<close>.
  The quotient of two integers is a float in Python; the model keeps its exact rational
  value. Dividing by a zero length raises \<open>ZeroDivisionError\<close>.
\<close>

fun probabilities_loop :: "nat \<Rightarrow> nat list list \<Rightarrow> error + rat list" where
  "probabilities_loop reference [] = Inr []"
| "probabilities_loop reference (old_indices # rest) =
     (if length old_indices = 0 then Inl ZeroDivisionError
      else (case probabilities_loop reference rest of
              Inl e \<Rightarrow> Inl e
            | Inr ps \<Rightarrow>
                Inr (min 1 (of_nat reference / of_nat (length old_indices)) # ps)))"

text \<open>
  The \<open>probabilities\<close> property: computed on the first access and cached; the node is
  returned with the cache filled.
\<close>

definition probabilities :: "Node \<Rightarrow> error + (rat list \<times> Node)" where
  "probabilities self =
     (case cached_probabilities self of
        Some ps \<Rightarrow> Inr (ps, self)
      | None \<Rightarrow>
          (case py_min (class_counts self) of
             Inl e \<Rightarrow> Inl e
           | Inr reference \<Rightarrow>
               (case probabilities_loop reference (new_to_old self) of
                  Inl e \<Rightarrow> Inl e
                | Inr ps \<Rightarrow> Inr (ps, self\<lparr>cached_probabilities := Some ps\<rparr>))))"

text \<open>
  The flat labels that the leaves of a child resolve to, and whether a flat label is
  assigned to some child's leaf set.
\<close>

definition leaf_index :: "string list \<Rightarrow> element \<Rightarrow> nat option" where
  "leaf_index wnids leaf =
     (case get leaf ''wnid'' of None \<Rightarrow> None | Some w \<Rightarrow> index_from 0 wnids w)"

definition child_labels :: "string list \<Rightarrow> element \<Rightarrow> nat list" where
  "child_labels wnids child = List.map_filter (leaf_index wnids) (get_leaves child)"

definition covered :: "string list \<Rightarrow> element list \<Rightarrow> nat \<Rightarrow> bool" where
  "covered wnids children old_index =
     (\<exists>child \<in> set children. old_index \<in> set (child_labels wnids child))"

section \<open>The nodes of a hierarchy\<close>





definition Node_dim :: "Node list \<Rightarrow> nat" where
  "Node_dim nodes = sum_list (map num_classes nodes)"

section \<open>PathSanityDataset\<close>

text \<open>
  A two-dimensional numpy array: its shape and its rows. Entries are the floats 0 and 1,
  kept as rationals.
\<close>

record ndarray =
  shape :: "nat \<times> nat"
  rows :: "rat list list"

definition np_zeros :: "nat \<times> nat \<Rightarrow> ndarray" where
  "np_zeros s = \<lparr> shape = s, rows = replicate (fst s) (replicate (snd s) 0) \<rparr>"

text \<open>\<^verbatim>\<open>A[i, j] = x\<close> for non-negative indices.\<close>

definition ndarray_setitem :: "ndarray \<Rightarrow> nat \<Rightarrow> nat \<Rightarrow> rat \<Rightarrow> error + ndarray" where
  "ndarray_setitem A i j x =
     (if i < fst (shape A) \<and> j < snd (shape A)
      then Inr (A\<lparr>rows := (rows A)[i := (rows A ! i)[j := x]]\<rparr>)
      else Inl IndexError)"



record 'a PathSanityDataset =
  ps_path_tree :: element
  ps_path_wnids :: "string list"
  ps_nodes :: "Node list"
  ps_dataset :: "'a dataset"
  ps_classes :: "string list"


text \<open>The test \<^verbatim>\<open>',' not in cls and cls\<close> of \<open>_get_node_weights\<close>.\<close>

definition is_leaf_name :: "string \<Rightarrow> bool" where
  "is_leaf_name cls = (CHR '','' \<notin> set cls \<and> cls \<noteq> [])"

text \<open>
  \<^verbatim>\<open>for new_index, cls in enumerate(node.classes):
      if ',' not in cls and cls:
          old_index = node.original_classes.index(cls)
          A[new_index, old_index] = 1\<close>
\<close>

fun node_weights_loop :: "Node \<Rightarrow> nat \<Rightarrow> string list \<Rightarrow> ndarray \<Rightarrow> error + ndarray" where
  "node_weights_loop node new_index [] A = Inr A"
| "node_weights_loop node new_index (cls # rest) A =
     (if is_leaf_name cls
      then (case py_index (original_classes node) cls of
              Inl e \<Rightarrow> Inl e
            | Inr old_index \<Rightarrow>
                (case ndarray_setitem A new_index old_index 1 of
                   Inl e \<Rightarrow> Inl e
                 | Inr A' \<Rightarrow> node_weights_loop node (Suc new_index) rest A'))
      else node_weights_loop node (Suc new_index) rest A)"

definition get_node_weights :: "'a PathSanityDataset \<Rightarrow> Node \<Rightarrow> error + ndarray" where
  "get_node_weights self node =
     (let n = num_classes node;
          k = length (dataset_classes (ps_dataset self));
          A = np_zeros (n, k)
      in node_weights_loop node 0 (classes node) A)"


definition get_input_dim :: "'a PathSanityDataset \<Rightarrow> nat" where
  "get_input_dim self = Node_dim (ps_nodes self)"

text \<open>
  Whether the new class with the given bucket of flat labels gets a 1 in the column of
  the flat label \<open>old_index\<close>: the bucket holds exactly one flat label, its class name
  passes the leaf test, and \<open>old_index\<close> is the first position of that name.
\<close>

definition leaf_class :: "string list \<Rightarrow> nat list \<Rightarrow> nat \<Rightarrow> bool" where
  "leaf_class cls bucket old_index =
     (case bucket of
        [old] \<Rightarrow> old < length cls \<and> is_leaf_name (cls ! old) \<and>
                  index_from 0 cls (cls ! old) = Some old_index
      | _ \<Rightarrow> False)"

section \<open>Example hierarchies\<close>

text \<open>
  A hierarchy with the vertex \<open>root\<close> over the leaf \<open>a\<close> and the vertex \<open>g\<close>, which
  has the leaves \<open>b\<close> and \<open>c\<close>; the flat class \<open>d\<close> is under no vertex.
\<close>

definition synset :: "string \<Rightarrow> element list \<Rightarrow> element" where
  "synset w children = Element ''synset'' [(''wnid'', w)] children"

definition example_g :: element where
  "example_g = synset ''g'' [synset ''b'' [], synset ''c'' []]"

definition example_root :: element where
  "example_root = synset ''root'' [synset ''a'' [], example_g]"

definition example_tree :: element where
  "example_tree = Element ''tree'' [] [example_root]"

definition example_wnids :: "string list" where
  "example_wnids = [''a'', ''b'', ''c'', ''d'']"

definition example_classes :: "string list" where
  "example_classes = [''apple'', ''bird'', ''cat'', ''dog'']"

definition example_root_node :: Node where
  "example_root_node =
     \<lparr> wnid = ''root'', original_classes = example_classes, num_original_classes = 4,
       mapping = [(0, 0), (1, 1), (2, 1), (3, 2)], num_children = 2, num_classes = 3,
       new_to_old = [[0], [1, 2], [3]], classes = [''apple'', ''bird,cat'', ''dog''],
       cached_probabilities = None, cached_class_weights = None,
       children_wnids = [Some ''a'', Some ''g''] \<rparr>"

definition example_g_node :: Node where
  "example_g_node =
     \<lparr> wnid = ''g'', original_classes = example_classes, num_original_classes = 4,
       mapping = [(1, 0), (2, 1), (0, 2), (3, 2)], num_children = 2, num_classes = 3,
       new_to_old = [[1], [2], [0, 3]], classes = [''bird'', ''cat'', ''apple,dog''],
       cached_probabilities = None, cached_class_weights = None,
       children_wnids = [Some ''b'', Some ''c''] \<rparr>"

text \<open>A hierarchy in which the leaf \<open>a\<close> occurs under both children of \<open>p\<close>.\<close>

definition duplicate_p :: element where
  "duplicate_p = synset ''p'' [synset ''x'' [synset ''a'' []], synset ''y'' [synset ''a'' []]]"

definition duplicate_tree :: element where
  "duplicate_tree = Element ''tree'' [] [duplicate_p]"

definition duplicate_node :: Node where
  "duplicate_node =
     \<lparr> wnid = ''p'', original_classes = [], num_original_classes = 1,
       mapping = [(0, 1)], num_children = 2, num_classes = 2,
       new_to_old = [[], [0]], classes = [],
       cached_probabilities = None, cached_class_weights = None,
       children_wnids = [Some ''x'', Some ''y''] \<rparr>"




text \<open>The same hierarchy with a class name that contains a comma.\<close>

definition comma_classes :: "string list" where
  "comma_classes = [''apple'', ''bird'', ''cat,tabby'', ''dog'']"

definition comma_g_node :: Node where
  "comma_g_node =
     \<lparr> wnid = ''g'', original_classes = comma_classes, num_original_classes = 4,
       mapping = [(1, 0), (2, 1), (0, 2), (3, 2)], num_children = 2, num_classes = 3,
       new_to_old = [[1], [2], [0, 3]], classes = [''bird'', ''cat,tabby'', ''apple,dog''],
       cached_probabilities = None, cached_class_weights = None,
       children_wnids = [Some ''b'', Some ''c''] \<rparr>"

definition comma_path_sanity :: "string PathSanityDataset" where
  "comma_path_sanity =
     \<lparr> ps_path_tree = example_tree, ps_path_wnids = example_wnids,
       ps_nodes = [comma_g_node],
       ps_dataset = \<lparr> dataset_classes = comma_classes, dataset_samples = [] \<rparr>,
       ps_classes = comma_classes \<rparr>"

section \<open>Properties of the label-subset views\<close>

lemma index_mapping_loop_filter:
  "index_mapping_loop inc old xs acc =
     acc @ map fst (filter (\<lambda>(i, (s, l)). l \<in> set inc) (zip [old..<old + length xs] xs))"
proof (induction xs arbitrary: old acc)
  case Nil
  show ?case by simp
next
  case (Cons x xs)
  obtain s l where x: "x = (s, l)" by (cases x)
  show ?case
    using Cons.IH [of "Suc old"] by (simp add: x upt_conv_Cons del: upt_Suc)
qed

lemma index_mapping_loop_cong:
  "set inc = set inc' \<Longrightarrow>
   index_mapping_loop inc old xs acc = index_mapping_loop inc' old xs acc"
  by (simp add: index_mapping_loop_filter)

text \<open>
  C1 (the access path): on the example of the specification the kept indices are
  0, 1, 2 and the length is 3, but accessing the view at index 0 raises \<open>NameError\<close>
  instead of returning the source's sample at kept index 0.
\<close>

theorem include_getitem_raises_NameError:
  "IncludeLabelsDataset_init example_source [0, 1] 0 =
     Inr \<lparr> il_dataset = example_source, il_include_labels = [0, 1], il_num_samples = 0,
           il_new_to_old = [0, 1, 2] \<rparr>
   \<and> IncludeLabelsDataset_len
       \<lparr> il_dataset = example_source, il_include_labels = [0, 1], il_num_samples = 0,
         il_new_to_old = [0, 1, 2] \<rparr> = 3
   \<and> IncludeLabelsDataset_getitem
       \<lparr> il_dataset = example_source, il_include_labels = [0, 1], il_num_samples = 0,
         il_new_to_old = [0, 1, 2] \<rparr> 0 = Inl (NameError ''new_to_old'')
   \<and> dataset_getitem example_source 0 = Inr (''s0'', 0)"
  by (simp add: IncludeLabelsDataset_init_def build_index_mapping_def example_source_def
      IncludeLabelsDataset_len_def IncludeLabelsDataset_getitem_def dataset_getitem_def)

text \<open>
  C7: the exclude view is observationally equal to the include view built from any
  representation of the label set \<open>{0..K-1}\<close> minus the exclude set, \<open>K\<close> the number of
  classes of the source: both constructions fail alike or give the same length, the same
  kept indices into the same source and the same result at every index.
\<close>

theorem exclude_equiv_include_complement:
  assumes "set include_labels = {0..<int (length (dataset_classes ds))} - set exclude_labels"
  shows "same_view (ExcludeLabelsDataset_init ds exclude_labels num_samples)
                   (IncludeLabelsDataset_init ds include_labels num_samples)"
proof -
  let ?inc = "filter (\<lambda>l. l \<notin> set exclude_labels) (map int [0..<length (dataset_classes ds)])"
  have "set (map int [0..<length (dataset_classes ds)]) = {0..<int (length (dataset_classes ds))}"
    by (simp add: image_int_atLeastLessThan)
  then have s: "set ?inc = set include_labels"
    using assms by auto
  then have e: "?inc = [] \<longleftrightarrow> include_labels = []"
    by (metis set_empty)
  have b: "build_index_mapping ds ?inc num_samples = build_index_mapping ds include_labels num_samples"
    by (simp add: build_index_mapping_def index_mapping_loop_cong [OF s])
  show ?thesis
    using e b
    by (simp add: same_view_def ExcludeLabelsDataset_init_def IncludeLabelsDataset_init_def
        IncludeLabelsDataset_len_def IncludeLabelsDataset_getitem_def)
qed

theorem exclude_equiv_include_complement_witness:
  "set [1, 2] = {0..<int (length (dataset_classes example_source))} - set [0]
   \<and> same_view (ExcludeLabelsDataset_init example_source [0] 0)
               (IncludeLabelsDataset_init example_source [1, 2] 0)
   \<and> ExcludeLabelsDataset_init example_source [0] 0 =
       Inr \<lparr> il_dataset = example_source, il_include_labels = [1, 2], il_num_samples = 0,
             il_new_to_old = [1, 3] \<rparr>"
proof -
  have h: "set [1, 2] = {0..<int (length (dataset_classes example_source))} - set [0]"
    by (auto simp: example_source_def)
  have v: "ExcludeLabelsDataset_init example_source [0] 0 =
       Inr \<lparr> il_dataset = example_source, il_include_labels = [1, 2], il_num_samples = 0,
             il_new_to_old = [1, 3] \<rparr>"
    by (simp add: ExcludeLabelsDataset_init_def IncludeLabelsDataset_init_def
        build_index_mapping_def example_source_def upt_conv_Cons)
  show ?thesis
    using h v exclude_equiv_include_complement [OF h, of 0] by blast
qed

text \<open>
  C8: constructing the include view with an empty label collection fails at the
  assertion, whatever the source and \<open>num_samples\<close> are.
\<close>

theorem include_empty_labels_fails:
  "IncludeLabelsDataset_init ds [] num_samples = Inl (AssertionError no_labels_message)"
  by (simp add: IncludeLabelsDataset_init_def)

section \<open>Properties of Node construction\<close>

lemma index_from_Some:
  "index_from i xs x = Some j \<Longrightarrow> i \<le> j \<and> j < i + length xs \<and> xs ! (j - i) = x"
proof (induction xs arbitrary: i)
  case Nil
  then show ?case by simp
next
  case (Cons y ys)
  show ?case
  proof (cases "y = x")
    case True
    with Cons.prems show ?thesis by simp
  next
    case False
    with Cons.prems have "index_from (Suc i) ys x = Some j" by simp
    from Cons.IH [OF this] show ?thesis by (auto simp: nth_Cons')
  qed
qed

lemma index_from_None: "index_from i xs x = None \<longleftrightarrow> x \<notin> set xs"
  by (induction xs arbitrary: i) auto

lemma py_index_Inr: "py_index xs x = Inr j \<Longrightarrow> j < length xs \<and> xs ! j = x"
  using index_from_Some [of 0 xs x j] by (auto simp: py_index_def split: option.splits)

lemma mapping_leaves_Inr:
  "mapping_leaves wnids j ls m = Inr m' \<Longrightarrow>
     (\<forall>l \<in> set ls. leaf_index wnids l \<noteq> None) \<and>
     (\<forall>old. map_of m' old =
        (if Some old \<in> leaf_index wnids ` set ls then Some j else map_of m old)) \<and>
     (distinct (map fst m) \<longrightarrow> distinct (map fst m'))"
proof (induction ls arbitrary: m)
  case Nil
  then show ?case by simp
next
  case (Cons l ls)
  from Cons.prems obtain w old where
    w: "get l ''wnid'' = Some w" and old: "index_from 0 wnids w = Some old" and
    rest: "mapping_leaves wnids j ls (AList.update old j m) = Inr m'"
    by (auto simp: py_index_def split: option.splits sum.splits)
  have li: "leaf_index wnids l = Some old" by (simp add: leaf_index_def w old)
  from Cons.IH [OF rest] li show ?case
    by (auto simp: update_conv' distinct_update)
qed

lemma mapping_leaves_succeeds:
  "\<forall>l \<in> set ls. leaf_index wnids l \<noteq> None \<Longrightarrow> \<exists>m'. mapping_leaves wnids j ls m = Inr m'"
proof (induction ls arbitrary: m)
  case Nil
  then show ?case by simp
next
  case (Cons l ls)
  then show ?case
    by (auto simp: leaf_index_def py_index_def split: option.splits)
qed

lemma set_child_labels:
  "old \<in> set (child_labels wnids c) \<longleftrightarrow> Some old \<in> leaf_index wnids ` set (get_leaves c)"
proof -
  have "old \<in> set (List.map_filter f xs) \<longleftrightarrow> Some old \<in> f ` set xs" for f :: "element \<Rightarrow> nat option" and xs
    by (induction xs) (auto split: option.splits)
  then show ?thesis by (simp add: child_labels_def)
qed

lemma mapping_children_Inr:
  "mapping_children wnids s cs m = Inr m' \<Longrightarrow>
     (\<forall>c \<in> set cs. \<forall>l \<in> set (get_leaves c). leaf_index wnids l \<noteq> None) \<and>
     (\<forall>old. \<not> covered wnids cs old \<longrightarrow> map_of m' old = map_of m old) \<and>
     (\<forall>old j. j < length cs \<and> old \<in> set (child_labels wnids (cs ! j)) \<and>
        (\<forall>j'. j < j' \<and> j' < length cs \<longrightarrow> old \<notin> set (child_labels wnids (cs ! j')))
        \<longrightarrow> map_of m' old = Some (s + j)) \<and>
     (distinct (map fst m) \<longrightarrow> distinct (map fst m'))"
proof (induction cs arbitrary: s m)
  case Nil
  then show ?case by (simp add: covered_def)
next
  case (Cons c cs)
  from Cons.prems obtain m1 where
    m1: "mapping_leaves wnids s (get_leaves c) m = Inr m1" and
    rest: "mapping_children wnids (Suc s) cs m1 = Inr m'"
    by (auto split: sum.splits)
  note L = mapping_leaves_Inr [OF m1]
  note R = Cons.IH [OF rest]
  have a: "\<forall>c' \<in> set (c # cs). \<forall>l \<in> set (get_leaves c'). leaf_index wnids l \<noteq> None"
    using L R by auto
  have b: "\<forall>old. \<not> covered wnids (c # cs) old \<longrightarrow> map_of m' old = map_of m old"
  proof (intro allI impI)
    fix old assume n: "\<not> covered wnids (c # cs) old"
    then have "\<not> covered wnids cs old" and "old \<notin> set (child_labels wnids c)"
      by (auto simp: covered_def)
    then show "map_of m' old = map_of m old"
      using L R by (simp add: set_child_labels)
  qed
  have c: "\<forall>old j. j < length (c # cs) \<and> old \<in> set (child_labels wnids ((c # cs) ! j)) \<and>
        (\<forall>j'. j < j' \<and> j' < length (c # cs) \<longrightarrow> old \<notin> set (child_labels wnids ((c # cs) ! j')))
        \<longrightarrow> map_of m' old = Some (s + j)"
  proof (intro allI impI, elim conjE)
    fix old j
    assume j: "j < length (c # cs)" and o: "old \<in> set (child_labels wnids ((c # cs) ! j))"
      and last: "\<forall>j'. j < j' \<and> j' < length (c # cs) \<longrightarrow> old \<notin> set (child_labels wnids ((c # cs) ! j'))"
    show "map_of m' old = Some (s + j)"
    proof (cases j)
      case 0
      have "\<not> covered wnids cs old"
      proof
        assume "covered wnids cs old"
        then obtain i where "i < length cs" "old \<in> set (child_labels wnids (cs ! i))"
          unfolding covered_def by (metis in_set_conv_nth)
        with last 0 show False by (auto dest: spec [of _ "Suc i"])
      qed
      then have "map_of m' old = map_of m1 old" using R by simp
      also have "\<dots> = Some s" using L o 0 by (simp add: set_child_labels)
      finally show ?thesis using 0 by simp
    next
      case (Suc i)
      have "i < length cs" "old \<in> set (child_labels wnids (cs ! i))"
        using j o Suc by auto
      moreover have "\<forall>j'. i < j' \<and> j' < length cs \<longrightarrow> old \<notin> set (child_labels wnids (cs ! j'))"
      proof (intro allI impI)
        fix j' assume "i < j' \<and> j' < length cs"
        then show "old \<notin> set (child_labels wnids (cs ! j'))"
          using last Suc by (auto dest: spec [of _ "Suc j'"])
      qed
      ultimately have "map_of m' old = Some (Suc s + i)" using R by blast
      then show ?thesis using Suc by simp
    qed
  qed
  have d: "distinct (map fst m) \<longrightarrow> distinct (map fst m')"
    using L R by blast
  show ?case using a b c d by blast
qed


lemma mapping_children_succeeds:
  "\<forall>c \<in> set cs. \<forall>l \<in> set (get_leaves c). leaf_index wnids l \<noteq> None \<Longrightarrow>
   \<exists>m'. mapping_children wnids s cs m = Inr m'"
proof (induction cs arbitrary: s m)
  case Nil
  then show ?case by simp
next
  case (Cons c cs)
  then obtain m1 where "mapping_leaves wnids s (get_leaves c) m = Inr m1"
    using mapping_leaves_succeeds [of "get_leaves c" wnids s m] by auto
  with Cons show ?case by simp
qed

lemma child_labels_bound: "old \<in> set (child_labels wnids c) \<Longrightarrow> old < length wnids"
  using index_from_Some [of 0 wnids _ old]
  by (auto simp: set_child_labels leaf_index_def image_iff split: option.splits)

lemma covered_bound: "covered wnids cs old \<Longrightarrow> old < length wnids"
  by (auto simp: covered_def dest: child_labels_bound)

lemma covered_last:
  "covered wnids cs old \<Longrightarrow>
   \<exists>j < length cs. old \<in> set (child_labels wnids (cs ! j)) \<and>
     (\<forall>j'. j < j' \<and> j' < length cs \<longrightarrow> old \<notin> set (child_labels wnids (cs ! j')))"
proof (induction cs rule: rev_induct)
  case Nil
  then show ?case by (simp add: covered_def)
next
  case (snoc c cs)
  show ?case
  proof (cases "old \<in> set (child_labels wnids c)")
    case True
    then show ?thesis by (intro exI [of _ "length cs"]) auto
  next
    case False
    with snoc.prems have "covered wnids cs old" by (auto simp: covered_def)
    from snoc.IH [OF this] obtain j where j: "j < length cs"
      "old \<in> set (child_labels wnids (cs ! j))"
      "\<forall>j'. j < j' \<and> j' < length cs \<longrightarrow> old \<notin> set (child_labels wnids (cs ! j'))"
      by blast
    have "\<forall>j'. j < j' \<and> j' < length (cs @ [c]) \<longrightarrow> old \<notin> set (child_labels wnids ((cs @ [c]) ! j'))"
      using j(3) False by (auto simp: nth_append)
    with j(1,2) show ?thesis
      by (intro exI [of _ j]) (simp add: nth_append)
  qed
qed

lemma mapping_children_lookup:
  assumes "mapping_children wnids 0 cs [] = Inr m"
  shows "map_of m old = None \<longleftrightarrow> \<not> covered wnids cs old"
    and "map_of m old = Some v \<Longrightarrow> v < length cs \<and> old \<in> set (child_labels wnids (cs ! v))"
proof -
  note R = mapping_children_Inr [OF assms]
  show "map_of m old = None \<longleftrightarrow> \<not> covered wnids cs old"
  proof (cases "covered wnids cs old")
    case True
    from covered_last [OF this] obtain j where j: "j < length cs"
      "old \<in> set (child_labels wnids (cs ! j))"
      "\<forall>j'. j < j' \<and> j' < length cs \<longrightarrow> old \<notin> set (child_labels wnids (cs ! j'))"
      by blast
    with R have "map_of m old = Some (0 + j)" by blast
    with True show ?thesis by simp
  next
    case False
    with R show ?thesis by simp
  qed
  show "v < length cs \<and> old \<in> set (child_labels wnids (cs ! v))" if v: "map_of m old = Some v"
  proof (cases "covered wnids cs old")
    case True
    from covered_last [OF this] obtain j where j: "j < length cs"
      "old \<in> set (child_labels wnids (cs ! j))"
      "\<forall>j'. j < j' \<and> j' < length cs \<longrightarrow> old \<notin> set (child_labels wnids (cs ! j'))"
      by blast
    with R have "map_of m old = Some (0 + j)" by blast
    with v j show ?thesis by simp
  next
    case False
    with R v show ?thesis by simp
  qed
qed

lemma length_alist_card: "distinct (map fst m) \<Longrightarrow> length m = card (dom (map_of m))"
  by (metis dom_map_of_conv_image_fst distinct_card length_map list.set_map)

lemma mapping_children_length:
  assumes "mapping_children wnids 0 cs [] = Inr m"
  shows "length m < length wnids \<longleftrightarrow> (\<exists>old < length wnids. \<not> covered wnids cs old)"
proof -
  have d: "distinct (map fst m)" using mapping_children_Inr [OF assms] by simp
  have dom: "dom (map_of m) = {old. covered wnids cs old}"
    using mapping_children_lookup(1) [OF assms] by (auto simp: dom_def)
  have sub: "dom (map_of m) \<subseteq> {..<length wnids}"
    unfolding dom by (auto dest: covered_bound)
  have "length m = card (dom (map_of m))" by (rule length_alist_card [OF d])
  moreover have "card (dom (map_of m)) < length wnids \<longleftrightarrow> dom (map_of m) \<noteq> {..<length wnids}"
    using sub psubset_card_mono [of "{..<length wnids}" "dom (map_of m)"] by auto
  ultimately show ?thesis using sub unfolding dom by auto
qed

lemma map_of_fill_other:
  "map_of (fill_other olds n m) old =
     (case map_of m old of Some v \<Rightarrow> Some v
      | None \<Rightarrow> if old \<in> set olds then Some n else None)"
  by (induction olds arbitrary: m) (auto simp: update_conv' split: option.splits)

lemma new_to_old_loop_Inr:
  "\<forall>old \<in> set olds. \<exists>v. map_of m old = Some v \<and> v < length bs \<Longrightarrow>
   new_to_old_loop m olds bs =
     Inr (map (\<lambda>j. bs ! j @ filter (\<lambda>old. map_of m old = Some j) olds) [0..<length bs])"
proof (induction olds arbitrary: bs)
  case Nil
  then show ?case by (simp add: map_nth)
next
  case (Cons old olds)
  then obtain v where v: "map_of m old = Some v" "v < length bs" by auto
  let ?bs = "bs[v := bs ! v @ [old]]"
  have "\<forall>old \<in> set olds. \<exists>v. map_of m old = Some v \<and> v < length ?bs"
    using Cons.prems by simp
  from Cons.IH [OF this] have
    "new_to_old_loop m olds ?bs =
       Inr (map (\<lambda>j. ?bs ! j @ filter (\<lambda>old. map_of m old = Some j) olds) [0..<length bs])"
    by simp
  moreover have "map (\<lambda>j. ?bs ! j @ filter (\<lambda>old. map_of m old = Some j) olds) [0..<length bs]
      = map (\<lambda>j. bs ! j @ filter (\<lambda>old. map_of m old = Some j) (old # olds)) [0..<length bs]"
    using v by (auto simp: nth_list_update)
  ultimately show ?case using v by simp
qed

lemma sum_list_indicator:
  "sum_list (map (\<lambda>j. if j = v then 1 else 0) [0..<n]) = (if v < n then 1 else (0::nat))"
  by (induction n) auto

lemma sum_length_buckets:
  "\<forall>old \<in> set olds. \<exists>v. f old = Some v \<and> v < n \<Longrightarrow>
   sum_list (map (\<lambda>j. length (filter (\<lambda>old. f old = Some j) olds)) [0..<n]) = length olds"
proof (induction olds)
  case Nil
  then show ?case by simp
next
  case (Cons old olds)
  then obtain v where v: "f old = Some v" "v < n" by auto
  have "map (\<lambda>j. length (filter (\<lambda>old. f old = Some j) (old # olds))) [0..<n]
      = map (\<lambda>j. (if j = v then 1 else 0) + length (filter (\<lambda>old. f old = Some j) olds)) [0..<n]"
    using v by auto
  then have "sum_list (map (\<lambda>j. length (filter (\<lambda>old. f old = Some j) (old # olds))) [0..<n])
      = sum_list (map (\<lambda>j. (if j = v then 1 else 0) + length (filter (\<lambda>old. f old = Some j) olds)) [0..<n])"
    by (simp only:)
  also have "\<dots> = sum_list (map (\<lambda>j. if j = v then 1 else 0) [0..<n])
        + sum_list (map (\<lambda>j. length (filter (\<lambda>old. f old = Some j) olds)) [0..<n])"
    by (simp only: sum_list_addf)
  also have "\<dots> = length (old # olds)"
    using Cons v by (simp add: sum_list_indicator)
  finally show ?case .
qed


lemma collect_map_Inr:
  "\<forall>x \<in> set xs. f x = Inr (g x) \<Longrightarrow> collect (map f xs) = Inr (map g xs)"
  by (induction xs) auto

lemma collect_Inr_nth:
  "collect rs = Inr ys \<Longrightarrow> length ys = length rs \<and> (\<forall>i < length rs. rs ! i = Inr (ys ! i))"
proof (induction rs arbitrary: ys)
  case Nil
  then show ?case by simp
next
  case (Cons r rs)
  then obtain x xs where "r = Inr x" "collect rs = Inr xs" "ys = x # xs"
    by (auto split: sum.splits)
  with Cons.IH [of xs] show ?case by (auto simp: nth_Cons')
qed

lemma class_name_Inr:
  "class_name cls b = Inr s \<longleftrightarrow> (\<forall>old \<in> set b. old < length cls) \<and> s = join '','' (map (nth cls) b)"
proof
  assume a: "class_name cls b = Inr s"
  then obtain names where n: "collect (map (list_getitem cls) b) = Inr names" "s = join '','' names"
    by (auto simp: class_name_def split: sum.splits)
  note c = collect_Inr_nth [OF n(1)]
  have 1: "\<forall>old \<in> set b. old < length cls"
  proof
    fix old assume "old \<in> set b"
    then obtain i where "i < length b" "b ! i = old" by (auto simp: in_set_conv_nth)
    with c have "list_getitem cls old = Inr (names ! i)" by auto
    then show "old < length cls" by (auto simp: list_getitem_def split: if_splits)
  qed
  have "names = map (nth cls) b"
  proof (rule nth_equalityI)
    show "length names = length (map (nth cls) b)" using c by simp
    fix i assume "i < length names"
    then have i: "i < length b" using c by simp
    then have "list_getitem cls (b ! i) = Inr (names ! i)" using c by auto
    then show "names ! i = map (nth cls) b ! i"
      using i by (auto simp: list_getitem_def split: if_splits)
  qed
  with 1 n show "(\<forall>old \<in> set b. old < length cls) \<and> s = join '','' (map (nth cls) b)" by simp
next
  assume a: "(\<forall>old \<in> set b. old < length cls) \<and> s = join '','' (map (nth cls) b)"
  then have "collect (map (list_getitem cls) b) = Inr (map (nth cls) b)"
    by (intro collect_map_Inr) (simp add: list_getitem_def)
  with a show "class_name cls b = Inr s" by (simp add: class_name_def)
qed


lemma Node_init_Inr:
  assumes "Node_init w tree wnids cls = Inr node"
  shows "\<exists>v m. find_synset tree w = Some v \<and> getchildren v \<noteq> [] \<and>
     mapping_children wnids 0 (getchildren v) [] = Inr m \<and>
     mapping node = fill_other [0..<length wnids] (length (getchildren v)) m \<and>
     num_children node = length (getchildren v) \<and>
     num_classes node =
       (if length m < length wnids then length (getchildren v) + 1 else length (getchildren v)) \<and>
     new_to_old_loop (mapping node) [0..<length wnids] (replicate (num_classes node) []) =
       Inr (new_to_old node) \<and>
     num_original_classes node = length wnids \<and> original_classes node = cls \<and>
     cached_probabilities node = None \<and> wnid node = w \<and>
     (if cls \<noteq> [] then collect (map (class_name cls) (new_to_old node)) = Inr (classes node)
      else classes node = [])"
proof -
  from assms obtain v where v: "find_synset tree w = Some v"
    by (cases "find_synset tree w") (simp_all add: Node_init_def)
  have ch: "getchildren v \<noteq> []"
    using assms v by (cases "getchildren v") (simp_all add: Node_init_def)
  from assms v ch obtain m where m: "mapping_children wnids 0 (getchildren v) [] = Inr m"
    by (cases "mapping_children wnids 0 (getchildren v) []") (simp_all add: Node_init_def)
  let ?n = "length (getchildren v)"
  let ?nc = "if length m < length wnids then ?n + 1 else ?n"
  let ?m' = "fill_other [0..<length wnids] ?n m"
  from assms v ch m obtain buckets where
    b: "new_to_old_loop ?m' [0..<length wnids] (replicate ?nc []) = Inr buckets"
    by (cases "new_to_old_loop ?m' [0..<length wnids] (replicate ?nc [])")
       (simp_all add: Node_init_def Let_def)
  from assms v ch m b obtain names where
    nm: "(if cls \<noteq> [] then collect (map (class_name cls) buckets) else Inr []) = Inr names"
    by (cases "if cls \<noteq> [] then collect (map (class_name cls) buckets) else Inr []")
       (simp_all add: Node_init_def Let_def)
  have node: "node = \<lparr> wnid = w, original_classes = cls,
             num_original_classes = length wnids, mapping = ?m',
             num_children = ?n, num_classes = ?nc,
             new_to_old = buckets, classes = names,
             cached_probabilities = None,
             cached_class_weights = None,
             children_wnids = map (\<lambda>c. get c ''wnid'') (getchildren v) \<rparr>"
    using assms v ch m b nm
    by (simp add: Node_init_def Let_def)
  show ?thesis
    using v ch m b nm unfolding node by (simp split: if_splits)
qed

lemma filled_mapping:
  assumes m: "mapping_children wnids 0 cs [] = Inr m"
  shows "covered wnids cs old \<Longrightarrow>
           \<exists>j < length cs. map_of (fill_other [0..<length wnids] (length cs) m) old = Some j \<and>
              old \<in> set (child_labels wnids (cs ! j))"
    and "old < length wnids \<Longrightarrow> \<not> covered wnids cs old \<Longrightarrow>
           map_of (fill_other [0..<length wnids] (length cs) m) old = Some (length cs)"
    and "\<not> old < length wnids \<Longrightarrow>
           map_of (fill_other [0..<length wnids] (length cs) m) old = None"
proof -
  note look = mapping_children_lookup [OF m]
  show "\<exists>j < length cs. map_of (fill_other [0..<length wnids] (length cs) m) old = Some j \<and>
              old \<in> set (child_labels wnids (cs ! j))" if "covered wnids cs old"
  proof -
    from that look(1) [of old] obtain j where j: "map_of m old = Some j" by auto
    from look(2) [OF j] j show ?thesis by (simp add: map_of_fill_other)
  qed
  show "map_of (fill_other [0..<length wnids] (length cs) m) old = Some (length cs)"
    if "old < length wnids" "\<not> covered wnids cs old"
    using that look(1) [of old] by (simp add: map_of_fill_other)
  show "map_of (fill_other [0..<length wnids] (length cs) m) old = None"
    if "\<not> old < length wnids"
  proof -
    have "\<not> covered wnids cs old" using that covered_bound by blast
    then show ?thesis using that look(1) [of old] by (simp add: map_of_fill_other)
  qed
qed

lemma filled_buckets:
  assumes m: "mapping_children wnids 0 cs [] = Inr m"
  shows "new_to_old_loop (fill_other [0..<length wnids] (length cs) m) [0..<length wnids]
           (replicate (if length m < length wnids then length cs + 1 else length cs) []) =
         Inr (map (\<lambda>j. filter (\<lambda>old. map_of (fill_other [0..<length wnids] (length cs) m) old = Some j)
                     [0..<length wnids])
               [0..<(if length m < length wnids then length cs + 1 else length cs)])"
proof -
  let ?M = "fill_other [0..<length wnids] (length cs) m"
  let ?nc = "if length m < length wnids then length cs + 1 else length cs"
  note len = mapping_children_length [OF m]
  have "\<forall>old \<in> set [0..<length wnids]. \<exists>v. map_of ?M old = Some v \<and> v < length (replicate ?nc ([]::nat list))"
  proof
    fix old assume "old \<in> set [0..<length wnids]"
    then have o: "old < length wnids" by simp
    show "\<exists>v. map_of ?M old = Some v \<and> v < length (replicate ?nc ([]::nat list))"
    proof (cases "covered wnids cs old")
      case True
      from filled_mapping(1) [OF m True] show ?thesis by auto
    next
      case False
      then have "length m < length wnids" using len o by blast
      with filled_mapping(2) [OF m o False] show ?thesis by simp
    qed
  qed
  from new_to_old_loop_Inr [OF this] show ?thesis by simp
qed

lemma Node_facts:
  assumes init: "Node_init w tree wnids cls = Inr node" and v: "find_synset tree w = Some v"
  shows "covered wnids (getchildren v) old \<Longrightarrow>
           \<exists>j < length (getchildren v). map_of (mapping node) old = Some j \<and>
              old \<in> set (child_labels wnids (getchildren v ! j))"
    and "old < length wnids \<Longrightarrow> \<not> covered wnids (getchildren v) old \<Longrightarrow>
           map_of (mapping node) old = Some (length (getchildren v))"
    and "\<not> old < length wnids \<Longrightarrow> map_of (mapping node) old = None"
    and "num_children node = length (getchildren v)"
    and "0 < length (getchildren v)"
    and "num_classes node =
           (if \<forall>old < length wnids. covered wnids (getchildren v) old
            then length (getchildren v) else length (getchildren v) + 1)"
    and "new_to_old node =
           map (\<lambda>j. filter (\<lambda>old. map_of (mapping node) old = Some j) [0..<length wnids])
             [0..<num_classes node]"
proof -
  from Node_init_Inr [OF init] v obtain m where
    m: "mapping_children wnids 0 (getchildren v) [] = Inr m" and
    M: "mapping node = fill_other [0..<length wnids] (length (getchildren v)) m" and
    ch: "getchildren v \<noteq> []" and
    n: "num_children node = length (getchildren v)" and
    nc: "num_classes node =
       (if length m < length wnids then length (getchildren v) + 1 else length (getchildren v))" and
    b: "new_to_old_loop (mapping node) [0..<length wnids] (replicate (num_classes node) []) =
       Inr (new_to_old node)"
    by auto
  note fm = filled_mapping [OF m]
  show "\<exists>j < length (getchildren v). map_of (mapping node) old = Some j \<and>
              old \<in> set (child_labels wnids (getchildren v ! j))"
    if "covered wnids (getchildren v) old"
    using fm(1) [OF that] unfolding M .
  show "map_of (mapping node) old = Some (length (getchildren v))"
    if "old < length wnids" "\<not> covered wnids (getchildren v) old"
    using fm(2) [OF that] unfolding M .
  show "map_of (mapping node) old = None" if "\<not> old < length wnids"
    using fm(3) [OF that] unfolding M .
  show "num_children node = length (getchildren v)" by (rule n)
  show "0 < length (getchildren v)" using ch by simp
  show "num_classes node =
           (if \<forall>old < length wnids. covered wnids (getchildren v) old
            then length (getchildren v) else length (getchildren v) + 1)"
    unfolding nc using mapping_children_length [OF m] by auto
  show "new_to_old node =
           map (\<lambda>j. filter (\<lambda>old. map_of (mapping node) old = Some j) [0..<length wnids])
             [0..<num_classes node]"
    using b filled_buckets [OF m] unfolding M nc by simp
qed

lemma leaf_index_known:
  "get leaf ''wnid'' = Some x \<Longrightarrow> x \<in> set wnids \<Longrightarrow> leaf_index wnids leaf \<noteq> None"
  by (simp add: leaf_index_def index_from_None)

lemma Node_init_succeeds:
  assumes v: "find_synset tree w = Some v" and ch: "getchildren v \<noteq> []"
    and leaves: "\<forall>child \<in> set (getchildren v). \<forall>leaf \<in> set (get_leaves child).
                   \<exists>x. get leaf ''wnid'' = Some x \<and> x \<in> set wnids"
    and cls: "cls = [] \<or> length wnids \<le> length cls"
  shows "\<exists>node. Node_init w tree wnids cls = Inr node"
proof -
  have "\<forall>child \<in> set (getchildren v). \<forall>leaf \<in> set (get_leaves child). leaf_index wnids leaf \<noteq> None"
    using leaves leaf_index_known by blast
  from mapping_children_succeeds [OF this] obtain m where
    m: "mapping_children wnids 0 (getchildren v) [] = Inr m" by blast
  let ?M = "fill_other [0..<length wnids] (length (getchildren v)) m"
  let ?nc = "if length m < length wnids then length (getchildren v) + 1 else length (getchildren v)"
  let ?bs = "map (\<lambda>j. filter (\<lambda>old. map_of ?M old = Some j) [0..<length wnids]) [0..<?nc]"
  note b = filled_buckets [OF m]
  have "\<exists>names. (if cls \<noteq> [] then collect (map (class_name cls) ?bs) else Inr []) = Inr names"
  proof (cases "cls = []")
    case True
    then show ?thesis by simp
  next
    case False
    with cls have le: "length wnids \<le> length cls" by simp
    have "\<forall>b \<in> set ?bs. class_name cls b = Inr (join '','' (map (nth cls) b))"
    proof
      fix b assume "b \<in> set ?bs"
      then have "\<forall>old \<in> set b. old < length wnids" by auto
      with le have "\<forall>old \<in> set b. old < length cls" by auto
      then show "class_name cls b = Inr (join '','' (map (nth cls) b))"
        by (simp add: class_name_Inr)
    qed
    from collect_map_Inr [OF this] False show ?thesis by simp
  qed
  then obtain names where
    nm: "(if cls \<noteq> [] then collect (map (class_name cls) ?bs) else Inr []) = Inr names" by blast
  show ?thesis
    using v ch m b nm by (simp add: Node_init_def Let_def)
qed

section \<open>The example nodes\<close>

lemma find_example_root: "find_synset example_tree ''root'' = Some example_root"
  by (simp add: find_synset_def example_tree_def example_root_def example_g_def synset_def get_def)

lemma find_example_g: "find_synset example_tree ''g'' = Some example_g"
  by (simp add: find_synset_def example_tree_def example_root_def example_g_def synset_def get_def)

lemma find_duplicate_p: "find_synset duplicate_tree ''p'' = Some duplicate_p"
  by (simp add: find_synset_def duplicate_tree_def duplicate_p_def synset_def get_def)

lemma Node_init_example_root:
  "Node_init ''root'' example_tree example_wnids example_classes = Inr example_root_node"
  by (simp add: Node_init_def find_example_root example_root_def example_g_def synset_def
      get_leaves_def get_def py_index_def example_wnids_def example_classes_def
      example_root_node_def class_name_def list_getitem_def AList.update.simps upt_conv_Cons)

lemma Node_init_example_g:
  "Node_init ''g'' example_tree example_wnids example_classes = Inr example_g_node"
  by (simp add: Node_init_def find_example_g example_g_def synset_def
      get_leaves_def get_def py_index_def example_wnids_def example_classes_def
      example_g_node_def class_name_def list_getitem_def AList.update.simps upt_conv_Cons)

lemma Node_init_duplicate:
  "Node_init ''p'' duplicate_tree [''a''] [] = Inr duplicate_node"
  by (simp add: Node_init_def find_duplicate_p duplicate_p_def synset_def
      get_leaves_def get_def py_index_def duplicate_node_def AList.update.simps upt_conv_Cons)

lemma Node_mapping_total:
  assumes init: "Node_init w tree wnids cls = Inr node" and v: "find_synset tree w = Some v"
    and o: "old < length wnids"
  shows "\<exists>new < num_classes node. map_of (mapping node) old = Some new"
proof (cases "covered wnids (getchildren v) old")
  case True
  note f = Node_facts [OF init v]
  from f(1) [OF True] obtain j where "j < length (getchildren v)"
    "map_of (mapping node) old = Some j" by blast
  then show ?thesis using f(6) by (auto split: if_splits)
next
  case False
  note f = Node_facts [OF init v]
  have "num_classes node = length (getchildren v) + 1" using f(6) o False by auto
  with f(2) [OF o False] show ?thesis by simp
qed

section \<open>The label mapping of a Node\<close>

text \<open>
  C2: for a vertex with at least one child, all of whose reachable leaf identifiers occur
  in the flat class list, every constructed Node has a mapping defined exactly on the
  flat labels below \<open>K\<close>, with every value below \<open>num_classes\<close>; and the construction
  does return a Node when the class names are absent or cover the flat class list.
\<close>

theorem Node_mapping_total_in_range:
  assumes "find_synset tree w = Some v" and "getchildren v \<noteq> []"
    and "\<forall>child \<in> set (getchildren v). \<forall>leaf \<in> set (get_leaves child).
           \<exists>x. get leaf ''wnid'' = Some x \<and> x \<in> set wnids"
  shows "(cls = [] \<or> length wnids \<le> length cls \<longrightarrow>
            (\<exists>node. Node_init w tree wnids cls = Inr node)) \<and>
         (\<forall>node. Node_init w tree wnids cls = Inr node \<longrightarrow>
            dom (map_of (mapping node)) = {..<length wnids} \<and>
            (\<forall>old < length wnids. \<exists>new < num_classes node.
               map_of (mapping node) old = Some new))"
proof -
  have A: "cls = [] \<or> length wnids \<le> length cls \<longrightarrow>
            (\<exists>node. Node_init w tree wnids cls = Inr node)"
    using Node_init_succeeds [OF assms] by blast
  have B: "dom (map_of (mapping node)) = {..<length wnids} \<and>
            (\<forall>old < length wnids. \<exists>new < num_classes node.
               map_of (mapping node) old = Some new)"
    if init: "Node_init w tree wnids cls = Inr node" for node
  proof -
  note f = Node_facts [OF init assms(1)]
  have range: "\<exists>new < num_classes node. map_of (mapping node) old = Some new"
    if o: "old < length wnids" for old
    using Node_mapping_total [OF init assms(1) o] .
  have "dom (map_of (mapping node)) = {..<length wnids}"
  proof (intro set_eqI iffI)
    fix old assume "old \<in> dom (map_of (mapping node))"
    then show "old \<in> {..<length wnids}"
      using f(3) [of old] by (cases "old < length wnids") auto
  next
    fix old assume "old \<in> {..<length wnids}"
    then show "old \<in> dom (map_of (mapping node))" using range [of old] by auto
  qed
  with range show ?thesis by blast
  qed
  show ?thesis using A B by blast
qed

theorem Node_mapping_total_in_range_witness:
  "find_synset example_tree ''root'' = Some example_root \<and> getchildren example_root \<noteq> [] \<and>
   list_all (\<lambda>child. list_all (\<lambda>leaf. get leaf ''wnid'' \<in> Some ` set example_wnids)
      (get_leaves child)) (getchildren example_root) \<and>
   Node_init ''root'' example_tree example_wnids example_classes = Inr example_root_node \<and>
   dom (map_of (mapping example_root_node)) = {..<length example_wnids} \<and>
   (\<exists>new < num_classes example_root_node. map_of (mapping example_root_node) 0 = Some new) \<and>
   (\<exists>new < num_classes example_root_node. map_of (mapping example_root_node) 3 = Some new)"
proof -
  have ch: "getchildren example_root \<noteq> []"
    by (simp add: example_root_def synset_def)
  have leaves: "\<forall>child \<in> set (getchildren example_root). \<forall>leaf \<in> set (get_leaves child).
      \<exists>x. get leaf ''wnid'' = Some x \<and> x \<in> set example_wnids"
    by (auto simp: example_root_def example_g_def synset_def get_leaves_def get_def
        example_wnids_def)
  have l: "list_all (\<lambda>child. list_all (\<lambda>leaf. get leaf ''wnid'' \<in> Some ` set example_wnids)
      (get_leaves child)) (getchildren example_root)"
    using leaves by (auto simp: list_all_iff)
  have k: "(0::nat) < length example_wnids" "(3::nat) < length example_wnids"
    by (simp_all add: example_wnids_def)
  note T = Node_mapping_total_in_range [OF find_example_root ch leaves, of example_classes]
  show ?thesis
    using T find_example_root ch l k Node_init_example_root by blast
qed

text \<open>
  C3: when every flat label is assigned to some child's leaf set, \<open>num_classes\<close> equals
  \<open>num_children\<close>; otherwise it is \<open>num_children + 1\<close>, some flat label maps to
  \<open>num_children\<close>, and the bucket of that extra class is not empty.
\<close>

theorem Node_num_classes:
  assumes "Node_init w tree wnids cls = Inr node" and "find_synset tree w = Some v"
  shows "if \<forall>old < length wnids. covered wnids (getchildren v) old
         then num_classes node = num_children node
         else num_classes node = num_children node + 1 \<and>
              (\<exists>old < length wnids. map_of (mapping node) old = Some (num_children node)) \<and>
              new_to_old node ! num_children node \<noteq> []"
proof (cases "\<forall>old < length wnids. covered wnids (getchildren v) old")
  case True
  then show ?thesis using Node_facts(4,6) [OF assms] by simp
next
  case False
  note f = Node_facts [OF assms]
  from False obtain old where o: "old < length wnids" "\<not> covered wnids (getchildren v) old"
    by blast
  have nc: "num_classes node = num_children node + 1" using False f(4,6) by simp
  have mo: "map_of (mapping node) old = Some (num_children node)"
    using f(2) [OF o] f(4) by simp
  have "new_to_old node ! num_children node =
          filter (\<lambda>old. map_of (mapping node) old = Some (num_children node)) [0..<length wnids]"
    by (subst f(7)) (simp add: nc nth_append)
  moreover have "old \<in> set (filter (\<lambda>old. map_of (mapping node) old = Some (num_children node))
                           [0..<length wnids])"
    using o mo by simp
  ultimately have "old \<in> set (new_to_old node ! num_children node)" by (simp only:)
  then have "new_to_old node ! num_children node \<noteq> []" by auto
  with False nc mo o show ?thesis by auto
qed

theorem Node_num_classes_witness:
  "Node_init ''root'' example_tree example_wnids example_classes = Inr example_root_node \<and>
   find_synset example_tree ''root'' = Some example_root \<and>
   \<not> (\<forall>old < length example_wnids. covered example_wnids (getchildren example_root) old) \<and>
   num_classes example_root_node = num_children example_root_node + 1 \<and>
   (\<exists>old < length example_wnids.
      map_of (mapping example_root_node) old = Some (num_children example_root_node)) \<and>
   new_to_old example_root_node ! num_children example_root_node \<noteq> []"
proof -
  have "\<not> covered example_wnids (getchildren example_root) 3"
    by (simp add: covered_def child_labels_def leaf_index_def example_root_def example_g_def
        synset_def get_leaves_def get_def example_wnids_def)
  moreover have "(3::nat) < length example_wnids"
    by (simp add: example_wnids_def)
  ultimately have n: "\<not> (\<forall>old < length example_wnids. covered example_wnids (getchildren example_root) old)"
    by blast
  show ?thesis
    using Node_num_classes [OF Node_init_example_root find_example_root] n
      Node_init_example_root find_example_root
    by simp
qed

text \<open>
  C4: \<open>new_to_old\<close> is the inverse grouping of \<open>mapping\<close>. Every member of a bucket maps
  to the bucket's index, every flat label below \<open>K\<close> is in exactly one bucket (and once),
  there are \<open>num_classes\<close> buckets, and the class counts add up to \<open>K\<close>.
\<close>

theorem Node_new_to_old_inverse:
  assumes "Node_init w tree wnids cls = Inr node"
  shows "length (new_to_old node) = num_classes node \<and>
         (\<forall>new < length (new_to_old node). \<forall>old \<in> set (new_to_old node ! new).
            map_of (mapping node) old = Some new) \<and>
         (\<forall>old < length wnids.
            \<exists>!new. new < length (new_to_old node) \<and> old \<in> set (new_to_old node ! new)) \<and>
         (\<forall>new < length (new_to_old node). distinct (new_to_old node ! new)) \<and>
         sum_list (class_counts node) = length wnids"
proof -
  from Node_init_Inr [OF assms] obtain v where v: "find_synset tree w = Some v" by blast
  note f = Node_facts [OF assms v]
  note t = Node_mapping_total [OF assms v]
  let ?b = "\<lambda>j. filter (\<lambda>old. map_of (mapping node) old = Some j) [0..<length wnids]"
  have len: "length (new_to_old node) = num_classes node"
    by (subst f(7)) simp
  have nth: "new_to_old node ! new = ?b new" if "new < num_classes node" for new
    by (subst f(7)) (simp add: that)
  have 1: "\<forall>new < length (new_to_old node). \<forall>old \<in> set (new_to_old node ! new).
            map_of (mapping node) old = Some new"
    using nth len by simp
  have 2: "\<forall>old < length wnids.
            \<exists>!new. new < length (new_to_old node) \<and> old \<in> set (new_to_old node ! new)"
  proof (intro allI impI)
    fix old assume o: "old < length wnids"
    from t [OF o] obtain new where new: "new < num_classes node"
      "map_of (mapping node) old = Some new" by blast
    show "\<exists>!new. new < length (new_to_old node) \<and> old \<in> set (new_to_old node ! new)"
    proof (rule ex1I [of _ new])
      show "new < length (new_to_old node) \<and> old \<in> set (new_to_old node ! new)"
        using new o len nth by simp
    next
      fix j assume "j < length (new_to_old node) \<and> old \<in> set (new_to_old node ! j)"
      then have "j < num_classes node" "old \<in> set (new_to_old node ! j)"
        using len by auto
      then have "old \<in> set (?b j)" using nth by simp
      then show "j = new" using new by simp
    qed
  qed
  have 3: "\<forall>new < length (new_to_old node). distinct (new_to_old node ! new)"
    using nth len by simp
  have "class_counts node = map (\<lambda>j. length (?b j)) [0..<num_classes node]"
    unfolding class_counts_def by (subst f(7)) simp
  moreover have "\<forall>old \<in> set [0..<length wnids].
      \<exists>v. map_of (mapping node) old = Some v \<and> v < num_classes node"
  proof
    fix old assume "old \<in> set [0..<length wnids]"
    then have "old < length wnids" by simp
    from t [OF this] show "\<exists>v. map_of (mapping node) old = Some v \<and> v < num_classes node"
      by blast
  qed
  then have "sum_list (map (\<lambda>j. length (?b j)) [0..<num_classes node]) = length [0..<length wnids]"
    by (rule sum_length_buckets)
  ultimately have 4: "sum_list (class_counts node) = length wnids" by simp
  show ?thesis using len 1 2 3 4 by blast
qed

theorem Node_new_to_old_inverse_witness:
  "Node_init ''g'' example_tree example_wnids example_classes = Inr example_g_node \<and>
   length (new_to_old example_g_node) = num_classes example_g_node \<and>
   new_to_old example_g_node = [[1], [2], [0, 3]] \<and>
   (\<exists>!new. new < length (new_to_old example_g_node) \<and>
      3 \<in> set (new_to_old example_g_node ! new)) \<and>
   class_counts example_g_node = [1, 1, 2] \<and>
   sum_list (class_counts example_g_node) = length example_wnids"
proof -
  have c: "class_counts example_g_node = [1, 1, 2]"
    by (simp add: class_counts_def example_g_node_def)
  have b: "new_to_old example_g_node = [[1], [2], [0, 3]]"
    by (simp add: example_g_node_def)
  have k: "(3::nat) < length example_wnids"
    by (simp add: example_wnids_def)
  show ?thesis
    using Node_new_to_old_inverse [OF Node_init_example_g] Node_init_example_g c b k by blast
qed

section \<open>Class counts and probabilities\<close>

lemma py_min_Inr:
  assumes "xs \<noteq> []"
  shows "py_min xs = Inr (Min (set xs))"
proof (cases xs)
  case Nil
  with assms show ?thesis by simp
next
  case (Cons a list)
  then show ?thesis using Min.set_eq_fold [of a list] by (simp add: py_min_def)
qed

lemma probabilities_loop_Inr:
  "\<forall>b \<in> set bs. b \<noteq> [] \<Longrightarrow>
   probabilities_loop r bs = Inr (map (\<lambda>b. min 1 (of_nat r / of_nat (length b))) bs)"
  by (induction bs) auto

lemma probabilities_loop_Inl:
  "[] \<in> set bs \<Longrightarrow> probabilities_loop r bs = Inl ZeroDivisionError"
  by (induction bs) auto

lemma probabilities_first_access:
  assumes "cached_probabilities self = None" and "new_to_old self \<noteq> []"
  shows "probabilities self =
     (if 0 \<in> set (class_counts self) then Inl ZeroDivisionError
      else Inr (map (\<lambda>c. min 1 (of_nat (Min (set (class_counts self))) / of_nat c))
                  (class_counts self),
                self\<lparr>cached_probabilities :=
                  Some (map (\<lambda>c. min 1 (of_nat (Min (set (class_counts self))) / of_nat c))
                         (class_counts self))\<rparr>))"
proof -
  have ne: "class_counts self \<noteq> []" using assms(2) by (simp add: class_counts_def)
  have z: "0 \<in> set (class_counts self) \<longleftrightarrow> [] \<in> set (new_to_old self)"
    by (auto simp: class_counts_def image_iff)
  show ?thesis
  proof (cases "[] \<in> set (new_to_old self)")
    case True
    then show ?thesis
      using assms(1) z by (simp add: probabilities_def py_min_Inr [OF ne] probabilities_loop_Inl)
  next
    case False
    then have "\<forall>b \<in> set (new_to_old self). b \<noteq> []" by auto
    from probabilities_loop_Inr [OF this]
    have "probabilities_loop r (new_to_old self) =
        Inr (map (\<lambda>c. min 1 (of_nat r / of_nat c)) (class_counts self))" for r
      by (simp add: class_counts_def comp_def)
    with False show ?thesis
      using assms(1) z
      by (simp add: probabilities_def py_min_Inr [OF ne])
  qed
qed

lemma Node_new_to_old_nonempty:
  assumes "Node_init w tree wnids cls = Inr node"
  shows "new_to_old node \<noteq> []" and "cached_probabilities node = None"
    and "length (new_to_old node) = num_classes node"
proof -
  from Node_init_Inr [OF assms] obtain v where v: "find_synset tree w = Some v"
    and c: "cached_probabilities node = None" by blast
  note f = Node_facts [OF assms v]
  have "0 < num_classes node" using f(5,6) by (simp split: if_splits)
  moreover show "length (new_to_old node) = num_classes node" by (subst f(7)) simp
  ultimately show "new_to_old node \<noteq> []" by auto
  show "cached_probabilities node = None" by (rule c)
qed



lemma Node_last_child:
  assumes init: "Node_init w tree wnids cls = Inr node" and v: "find_synset tree w = Some v"
    and j: "j < length (getchildren v)"
    and o: "old \<in> set (child_labels wnids (getchildren v ! j))"
    and last: "\<forall>j'. j < j' \<and> j' < length (getchildren v) \<longrightarrow>
                 old \<notin> set (child_labels wnids (getchildren v ! j'))"
  shows "map_of (mapping node) old = Some j"
proof -
  from Node_init_Inr [OF init] v obtain m where
    m: "mapping_children wnids 0 (getchildren v) [] = Inr m" and
    M: "mapping node = fill_other [0..<length wnids] (length (getchildren v)) m"
    by auto
  from mapping_children_Inr [OF m] j o last have "map_of m old = Some (0 + j)" by blast
  then show ?thesis unfolding M by (simp add: map_of_fill_other)
qed

text \<open>
  C9: a flat label whose leaf occurs under several children is mapped to the last of
  them, which can leave the bucket of an earlier child empty (the Node built for \<open>p\<close> in
  the hierarchy with the duplicated leaf has the buckets \<open>[[], [0]]\<close>). On a Node with an
  empty bucket the first access to \<open>probabilities\<close> raises \<open>ZeroDivisionError\<close>; the
  first access returns a value exactly when every class count is positive.
\<close>

theorem duplicate_leaf_then_zero_division:
  "(Node_init w tree wnids cls = Inr node \<and> find_synset tree w = Some v \<and>
    j < length (getchildren v) \<and> old \<in> set (child_labels wnids (getchildren v ! j)) \<and>
    (\<forall>j'. j < j' \<and> j' < length (getchildren v) \<longrightarrow>
       old \<notin> set (child_labels wnids (getchildren v ! j')))
    \<longrightarrow> map_of (mapping node) old = Some j) \<and>
   (Node_init ''p'' duplicate_tree [''a''] [] = Inr duplicate_node \<and>
    new_to_old duplicate_node = [[], [0]]) \<and>
   (cached_probabilities self = None \<and> 0 \<in> set (class_counts self)
    \<longrightarrow> probabilities self = Inl ZeroDivisionError) \<and>
   (cached_probabilities self = None \<and> new_to_old self \<noteq> []
    \<longrightarrow> ((\<exists>r. probabilities self = Inr r) \<longleftrightarrow> (\<forall>c \<in> set (class_counts self). 0 < c)))"
proof -
  have 1: "Node_init w tree wnids cls = Inr node \<and> find_synset tree w = Some v \<and>
    j < length (getchildren v) \<and> old \<in> set (child_labels wnids (getchildren v ! j)) \<and>
    (\<forall>j'. j < j' \<and> j' < length (getchildren v) \<longrightarrow>
       old \<notin> set (child_labels wnids (getchildren v ! j')))
    \<longrightarrow> map_of (mapping node) old = Some j"
    using Node_last_child by blast
  have 2: "new_to_old duplicate_node = [[], [0]]"
    by (simp add: duplicate_node_def)
  have ne: "new_to_old self \<noteq> []" if "0 \<in> set (class_counts self)"
    using that by (auto simp: class_counts_def)
  have 3: "cached_probabilities self = None \<and> 0 \<in> set (class_counts self)
    \<longrightarrow> probabilities self = Inl ZeroDivisionError"
    using probabilities_first_access [of self] ne by auto
  have 4: "cached_probabilities self = None \<and> new_to_old self \<noteq> []
    \<longrightarrow> ((\<exists>r. probabilities self = Inr r) \<longleftrightarrow> (\<forall>c \<in> set (class_counts self). 0 < c))"
  proof (intro impI, elim conjE)
    assume a: "cached_probabilities self = None" "new_to_old self \<noteq> []"
    have "(\<forall>c \<in> set (class_counts self). 0 < c) \<longleftrightarrow> 0 \<notin> set (class_counts self)"
      by (metis gr0I less_numeral_extra(3))
    then show "(\<exists>r. probabilities self = Inr r) \<longleftrightarrow> (\<forall>c \<in> set (class_counts self). 0 < c)"
      using probabilities_first_access [OF a] by auto
  qed
  show ?thesis using 1 Node_init_duplicate 2 3 4 by blast
qed

theorem duplicate_leaf_then_zero_division_witness:
  "Node_init ''p'' duplicate_tree [''a''] [] = Inr duplicate_node \<and>
   find_synset duplicate_tree ''p'' = Some duplicate_p \<and>
   child_labels [''a''] (getchildren duplicate_p ! 0) = [0] \<and>
   child_labels [''a''] (getchildren duplicate_p ! 1) = [0] \<and>
   map_of (mapping duplicate_node) 0 = Some 1 \<and>
   cached_probabilities duplicate_node = None \<and>
   class_counts duplicate_node = [0, 1] \<and>
   probabilities duplicate_node = Inl ZeroDivisionError"
proof -
  have c0: "child_labels [''a''] (getchildren duplicate_p ! 0) = [0]"
    by (simp add: child_labels_def leaf_index_def duplicate_p_def synset_def get_leaves_def get_def)
  have c1: "child_labels [''a''] (getchildren duplicate_p ! 1) = [0]"
    by (simp add: child_labels_def leaf_index_def duplicate_p_def synset_def get_leaves_def get_def)
  have len: "length (getchildren duplicate_p) = 2"
    by (simp add: duplicate_p_def synset_def)
  have cache: "cached_probabilities duplicate_node = None"
    by (simp add: duplicate_node_def)
  have counts: "class_counts duplicate_node = [0, 1]"
    by (simp add: class_counts_def duplicate_node_def)
  note T = duplicate_leaf_then_zero_division
    [of "''p''" duplicate_tree "[''a'']" "[]" duplicate_node duplicate_p 1 0 duplicate_node]
  have j: "(1::nat) < length (getchildren duplicate_p)"
    using len by simp
  have o: "(0::nat) \<in> set (child_labels [''a''] (getchildren duplicate_p ! 1))"
    using c1 by simp
  have last: "\<forall>j'. 1 < j' \<and> j' < length (getchildren duplicate_p) \<longrightarrow>
       (0::nat) \<notin> set (child_labels [''a''] (getchildren duplicate_p ! j'))"
    using len by auto
  have zero: "0 \<in> set (class_counts duplicate_node)"
    using counts by simp
  have m: "map_of (mapping duplicate_node) 0 = Some 1"
    using T Node_init_duplicate find_duplicate_p j o last by blast
  have z: "probabilities duplicate_node = Inl ZeroDivisionError"
    using T cache zero by blast
  show ?thesis
    using Node_init_duplicate find_duplicate_p c0 c1 m cache counts z by blast
qed

section \<open>The ideal projection of the path-sanity view\<close>



lemma node_weights_loop_Inr:
  assumes "shape A = (n, k)" and "length (rows A) = n" and "\<forall>r \<in> set (rows A). length r = k"
    and "\<forall>c \<in> set names. is_leaf_name c \<longrightarrow>
           (\<exists>j < k. index_from 0 (original_classes node) c = Some j)"
    and "s + length names \<le> n"
  shows "\<exists>A'. node_weights_loop node s names A = Inr A' \<and> shape A' = (n, k) \<and>
           length (rows A') = n \<and> (\<forall>r \<in> set (rows A'). length r = k) \<and>
           (\<forall>i < n. \<forall>j < k. rows A' ! i ! j =
              (if s \<le> i \<and> i < s + length names \<and> is_leaf_name (names ! (i - s)) \<and>
                  index_from 0 (original_classes node) (names ! (i - s)) = Some j
               then 1 else rows A ! i ! j))"
  using assms
proof (induction names arbitrary: s A)
  case Nil
  then show ?case by simp
next
  case (Cons c rest)
  have s: "s < n" and rest_le: "Suc s + length rest \<le> n" using Cons.prems(5) by simp_all
  have ok: "\<forall>c \<in> set rest. is_leaf_name c \<longrightarrow>
           (\<exists>j < k. index_from 0 (original_classes node) c = Some j)"
    using Cons.prems(4) by simp
  show ?case
  proof (cases "is_leaf_name c")
    case False
    from Cons.IH [OF Cons.prems(1,2,3) ok rest_le] obtain A' where
      A': "node_weights_loop node (Suc s) rest A = Inr A'" "shape A' = (n, k)"
        "length (rows A') = n" "\<forall>r \<in> set (rows A'). length r = k"
        "\<forall>i < n. \<forall>j < k. rows A' ! i ! j =
              (if Suc s \<le> i \<and> i < Suc s + length rest \<and> is_leaf_name (rest ! (i - Suc s)) \<and>
                  index_from 0 (original_classes node) (rest ! (i - Suc s)) = Some j
               then 1 else rows A ! i ! j)"
      by blast
    have "\<forall>i < n. \<forall>j < k. rows A' ! i ! j =
              (if s \<le> i \<and> i < s + length (c # rest) \<and> is_leaf_name ((c # rest) ! (i - s)) \<and>
                  index_from 0 (original_classes node) ((c # rest) ! (i - s)) = Some j
               then 1 else rows A ! i ! j)"
    proof (intro allI impI)
      fix i j assume i: "i < n" and j: "j < k"
      show "rows A' ! i ! j =
              (if s \<le> i \<and> i < s + length (c # rest) \<and> is_leaf_name ((c # rest) ! (i - s)) \<and>
                  index_from 0 (original_classes node) ((c # rest) ! (i - s)) = Some j
               then 1 else rows A ! i ! j)"
      proof (cases "i = s")
        case True
        then show ?thesis using A'(5) i j False by simp
      next
        case ne: False
        then have "(c # rest) ! (i - s) = rest ! (i - Suc s)" if "s \<le> i"
          using that by (simp add: nth_Cons')
        then show ?thesis using A'(5) i j ne by (auto simp: less_Suc_eq_le)
      qed
    qed
    with A'(1,2,3,4) False show ?thesis by simp
  next
    case True
    with Cons.prems(4) obtain j0 where j0: "j0 < k"
      "index_from 0 (original_classes node) c = Some j0" by auto
    let ?A1 = "A\<lparr>rows := (rows A)[s := (rows A ! s)[j0 := 1]]\<rparr>"
    have set1: "ndarray_setitem A s j0 1 = Inr ?A1"
      using s j0 Cons.prems(1) by (simp add: ndarray_setitem_def)
    have sh1: "shape ?A1 = (n, k)" using Cons.prems(1) by simp
    have len1: "length (rows ?A1) = n" using Cons.prems(2) by simp
    have rows1: "\<forall>r \<in> set (rows ?A1). length r = k"
    proof
      fix r assume "r \<in> set (rows ?A1)"
      then have "r \<in> insert ((rows A ! s)[j0 := 1]) (set (rows A))"
        using set_update_subset_insert by fastforce
      then show "length r = k" using Cons.prems(2,3) s by auto
    qed
    from Cons.IH [OF sh1 len1 rows1 ok rest_le] obtain A' where
      A': "node_weights_loop node (Suc s) rest ?A1 = Inr A'" "shape A' = (n, k)"
        "length (rows A') = n" "\<forall>r \<in> set (rows A'). length r = k"
        "\<forall>i < n. \<forall>j < k. rows A' ! i ! j =
              (if Suc s \<le> i \<and> i < Suc s + length rest \<and> is_leaf_name (rest ! (i - Suc s)) \<and>
                  index_from 0 (original_classes node) (rest ! (i - Suc s)) = Some j
               then 1 else rows ?A1 ! i ! j)"
      by blast
    have "\<forall>i < n. \<forall>j < k. rows A' ! i ! j =
              (if s \<le> i \<and> i < s + length (c # rest) \<and> is_leaf_name ((c # rest) ! (i - s)) \<and>
                  index_from 0 (original_classes node) ((c # rest) ! (i - s)) = Some j
               then 1 else rows A ! i ! j)"
    proof (intro allI impI)
      fix i j assume i: "i < n" and j: "j < k"
      show "rows A' ! i ! j =
              (if s \<le> i \<and> i < s + length (c # rest) \<and> is_leaf_name ((c # rest) ! (i - s)) \<and>
                  index_from 0 (original_classes node) ((c # rest) ! (i - s)) = Some j
               then 1 else rows A ! i ! j)"
      proof (cases "i = s")
        case eq: True
        have "rows A' ! i ! j = rows ?A1 ! s ! j" using A'(5) i j eq by simp
        also have "\<dots> = (if j = j0 then 1 else rows A ! s ! j)"
          using s j j0 Cons.prems(2,3) by (simp add: nth_list_update)
        finally show ?thesis using eq True j0 by auto
      next
        case ne: False
        then have nth: "(c # rest) ! (i - s) = rest ! (i - Suc s)" if "s \<le> i"
          using that by (simp add: nth_Cons')
        have "rows ?A1 ! i = rows A ! i" using ne by simp
        then show ?thesis using A'(5) i j ne nth by (auto simp: less_Suc_eq_le)
      qed
    qed
    with A'(1,2,3,4) True j0 set1 show ?thesis by (simp add: py_index_def)
  qed
qed

lemma get_node_weights_Inr:
  assumes "length (classes node) \<le> num_classes node"
    and "\<forall>c \<in> set (classes node). is_leaf_name c \<longrightarrow>
           (\<exists>j < length (dataset_classes (ps_dataset self)).
              index_from 0 (original_classes node) c = Some j)"
  shows "\<exists>A. get_node_weights self node = Inr A \<and>
           shape A = (num_classes node, length (dataset_classes (ps_dataset self))) \<and>
           length (rows A) = num_classes node \<and>
           (\<forall>r \<in> set (rows A). length r = length (dataset_classes (ps_dataset self))) \<and>
           (\<forall>i < num_classes node. \<forall>j < length (dataset_classes (ps_dataset self)).
              rows A ! i ! j =
                (if i < length (classes node) \<and> is_leaf_name (classes node ! i) \<and>
                    index_from 0 (original_classes node) (classes node ! i) = Some j
                 then 1 else 0))"
proof -
  let ?n = "num_classes node" and ?k = "length (dataset_classes (ps_dataset self))"
  let ?Z = "np_zeros (?n, ?k)"
  have 1: "shape ?Z = (?n, ?k)" by (simp add: np_zeros_def)
  have 2: "length (rows ?Z) = ?n" by (simp add: np_zeros_def)
  have 3: "\<forall>r \<in> set (rows ?Z). length r = ?k" by (simp add: np_zeros_def)
  have 5: "0 + length (classes node) \<le> ?n" using assms(1) by simp
  from node_weights_loop_Inr [OF 1 2 3 assms(2) 5] obtain A where
    A: "node_weights_loop node 0 (classes node) ?Z = Inr A" "shape A = (?n, ?k)"
      "length (rows A) = ?n" "\<forall>r \<in> set (rows A). length r = ?k"
      "\<forall>i < ?n. \<forall>j < ?k. rows A ! i ! j =
              (if 0 \<le> i \<and> i < 0 + length (classes node) \<and> is_leaf_name (classes node ! (i - 0)) \<and>
                  index_from 0 (original_classes node) (classes node ! (i - 0)) = Some j
               then 1 else rows ?Z ! i ! j)"
    by blast
  have z: "rows ?Z ! i ! j = 0" if "i < ?n" "j < ?k" for i j
    using that by (simp add: np_zeros_def)
  have "\<forall>i < ?n. \<forall>j < ?k. rows A ! i ! j =
                (if i < length (classes node) \<and> is_leaf_name (classes node ! i) \<and>
                    index_from 0 (original_classes node) (classes node ! i) = Some j
                 then 1 else 0)"
    using A(5) z by simp
  with A(1,2,3,4) show ?thesis by (simp add: get_node_weights_def)
qed

lemma comma_in_join: "2 \<le> length names \<Longrightarrow> CHR '','' \<in> set (join '','' names)"
proof (cases names)
  case Nil
  moreover assume "2 \<le> length names"
  ultimately show ?thesis by simp
next
  case (Cons s rest)
  moreover assume "2 \<le> length names"
  ultimately obtain t ts where "names = s # t # ts" by (cases rest) auto
  then show ?thesis by simp
qed

lemma is_leaf_name_join:
  "is_leaf_name (join '','' (map (nth cls) b)) \<longleftrightarrow> (\<exists>old. b = [old] \<and> is_leaf_name (cls ! old))"
proof (cases b)
  case Nil
  then show ?thesis by (simp add: is_leaf_name_def)
next
  case (Cons old rest)
  show ?thesis
  proof (cases rest)
    case Nil
    with Cons show ?thesis by simp
  next
    case (Cons p ps)
    with \<open>b = old # rest\<close> have "2 \<le> length (map (nth cls) b)" by simp
    from comma_in_join [OF this] Cons \<open>b = old # rest\<close> show ?thesis
      by (simp add: is_leaf_name_def)
  qed
qed

lemma Node_classes:
  assumes init: "Node_init w tree wnids cls = Inr node"
  shows "original_classes node = cls"
    and "length (classes node) \<le> num_classes node"
    and "i < length (classes node) \<Longrightarrow>
           classes node ! i = join '','' (map (nth cls) (new_to_old node ! i)) \<and>
           (\<forall>old \<in> set (new_to_old node ! i). old < length cls)"
    and "cls \<noteq> [] \<Longrightarrow> length (classes node) = num_classes node"
    and "cls = [] \<Longrightarrow> classes node = []"
proof -
  from Node_init_Inr [OF init] have
    oc: "original_classes node = cls" and
    c: "if cls \<noteq> [] then collect (map (class_name cls) (new_to_old node)) = Inr (classes node)
        else classes node = []"
    by auto
  note len = Node_new_to_old_nonempty(3) [OF init]
  show "original_classes node = cls" by (rule oc)
  show e: "classes node = []" if "cls = []" using c that by simp
  have col: "length (classes node) = length (new_to_old node) \<and>
      (\<forall>i < length (new_to_old node). class_name cls (new_to_old node ! i) = Inr (classes node ! i))"
    if "cls \<noteq> []"
    using collect_Inr_nth [of "map (class_name cls) (new_to_old node)" "classes node"] c that
    by simp
  show l: "length (classes node) = num_classes node" if "cls \<noteq> []"
    using col [OF that] len by simp
  show "length (classes node) \<le> num_classes node"
    using e l by (cases "cls = []") simp_all
  show "classes node ! i = join '','' (map (nth cls) (new_to_old node ! i)) \<and>
           (\<forall>old \<in> set (new_to_old node ! i). old < length cls)"
    if i: "i < length (classes node)"
  proof -
    have ne: "cls \<noteq> []" using e i by auto
    from col [OF ne] i have "class_name cls (new_to_old node ! i) = Inr (classes node ! i)"
      by simp
    then show ?thesis by (simp add: class_name_Inr)
  qed
qed

lemma index_from_member:
  "x \<in> set xs \<Longrightarrow> \<exists>j < length xs. index_from 0 xs x = Some j"
proof -
  assume "x \<in> set xs"
  then obtain j where j: "index_from 0 xs x = Some j"
    using index_from_None [of 0 xs x] by (cases "index_from 0 xs x") auto
  from index_from_Some [OF j] j show ?thesis by auto
qed

lemma Node_leaf_class:
  assumes init: "Node_init w tree wnids cls = Inr node" and i: "i < num_classes node"
  shows "(i < length (classes node) \<and> is_leaf_name (classes node ! i) \<and>
          index_from 0 (original_classes node) (classes node ! i) = Some j)
         \<longleftrightarrow> leaf_class cls (new_to_old node ! i) j"
proof (cases "cls = []")
  case True
  then have "classes node = []" using Node_classes(5) [OF init] by simp
  moreover have "\<not> leaf_class cls (new_to_old node ! i) j"
    using True by (simp add: leaf_class_def split: list.splits)
  ultimately show ?thesis by simp
next
  case False
  note c = Node_classes [OF init]
  have il: "i < length (classes node)" using c(4) [OF False] i by simp
  from c(3) [OF il] have
    nm: "classes node ! i = join '','' (map (nth cls) (new_to_old node ! i))" and
    bd: "\<forall>old \<in> set (new_to_old node ! i). old < length cls" by auto
  show ?thesis
  proof (cases "\<exists>old. new_to_old node ! i = [old]")
    case True
    then obtain old where b: "new_to_old node ! i = [old]" by blast
    with bd have "old < length cls" by simp
    with b nm il c(1) show ?thesis by (simp add: leaf_class_def)
  next
    case nb: False
    then have "\<not> is_leaf_name (classes node ! i)"
      unfolding nm is_leaf_name_join by blast
    moreover have "\<not> leaf_class cls (new_to_old node ! i) j"
      using nb by (auto simp: leaf_class_def split: list.splits)
    ultimately show ?thesis by simp
  qed
qed

lemma Node_weights_ok:
  assumes init: "Node_init w tree wnids cls = Inr node"
  shows "\<forall>c \<in> set (classes node). is_leaf_name c \<longrightarrow>
           (\<exists>j < length cls. index_from 0 (original_classes node) c = Some j)"
proof (intro ballI impI)
  fix c assume "c \<in> set (classes node)" and leaf: "is_leaf_name c"
  then obtain i where i: "i < length (classes node)" "classes node ! i = c"
    by (auto simp: in_set_conv_nth)
  note c = Node_classes [OF init]
  from c(3) [OF i(1)] i(2) have
    nm: "c = join '','' (map (nth cls) (new_to_old node ! i))" and
    bd: "\<forall>old \<in> set (new_to_old node ! i). old < length cls" by auto
  from leaf obtain old where b: "new_to_old node ! i = [old]"
    unfolding nm is_leaf_name_join by blast
  with bd nm have "c \<in> set cls" by simp
  from index_from_member [OF this] show "\<exists>j < length cls. index_from 0 (original_classes node) c = Some j"
    using c(1) by simp
qed

lemma Node_init_comma_g:
  "Node_init ''g'' example_tree example_wnids comma_classes = Inr comma_g_node"
  by (simp add: Node_init_def find_example_g example_g_def synset_def
      get_leaves_def get_def py_index_def example_wnids_def comma_classes_def
      comma_g_node_def class_name_def list_getitem_def AList.update.simps upt_conv_Cons)

text \<open>
  C10: \<open>_get_node_weights\<close> sets the 1 of a new class exactly when its class name passes
  the test "no comma and not empty" (the column is the first position of that name). So
  a new class that consists of the single flat class \<open>old\<close> whose name contains a comma
  is treated as merged: its row stays zero.
\<close>

theorem comma_class_name_gives_zero_row:
  assumes "Node_init w tree wnids (dataset_classes (ps_dataset self)) = Inr node"
    and "new < num_classes node" and "new_to_old node ! new = [old]"
    and "CHR '','' \<in> set (dataset_classes (ps_dataset self) ! old)"
  shows "\<exists>A. get_node_weights self node = Inr A \<and>
           shape A = (num_classes node, length (dataset_classes (ps_dataset self))) \<and>
           length (rows A) = num_classes node \<and>
           (\<forall>i < num_classes node. \<forall>j < length (dataset_classes (ps_dataset self)).
              rows A ! i ! j =
                (if i < length (classes node) \<and> is_leaf_name (classes node ! i) \<and>
                    index_from 0 (original_classes node) (classes node ! i) = Some j
                 then 1 else 0)) \<and>
           rows A ! new = replicate (length (dataset_classes (ps_dataset self))) 0"
proof -
  let ?cls = "dataset_classes (ps_dataset self)"
  note c = Node_classes [OF assms(1)]
  from get_node_weights_Inr [OF c(2) Node_weights_ok [OF assms(1)]] obtain A where
    A: "get_node_weights self node = Inr A"
      "shape A = (num_classes node, length ?cls)"
      "length (rows A) = num_classes node"
      "\<forall>r \<in> set (rows A). length r = length ?cls"
      "\<forall>i < num_classes node. \<forall>j < length ?cls.
              rows A ! i ! j =
                (if i < length (classes node) \<and> is_leaf_name (classes node ! i) \<and>
                    index_from 0 (original_classes node) (classes node ! i) = Some j
                 then 1 else 0)"
    by blast
  have nl: "\<not> leaf_class ?cls (new_to_old node ! new) j" for j
    using assms(3,4) by (simp add: leaf_class_def is_leaf_name_def)
  have "rows A ! new = replicate (length ?cls) 0"
  proof (rule nth_equalityI)
    show "length (rows A ! new) = length (replicate (length ?cls) (0::rat))"
      using A(3,4) assms(2) by simp
    fix j assume "j < length (rows A ! new)"
    then have j: "j < length ?cls" using A(3,4) assms(2) by simp
    have "rows A ! new ! j = 0"
      using A(5) assms(2) j Node_leaf_class [OF assms(1,2), of j] nl [of j] by simp
    then show "rows A ! new ! j = replicate (length ?cls) 0 ! j" using j by simp
  qed
  with A show ?thesis by blast
qed

theorem comma_class_name_gives_zero_row_witness:
  "Node_init ''g'' example_tree example_wnids (dataset_classes (ps_dataset comma_path_sanity))
     = Inr comma_g_node \<and>
   1 < num_classes comma_g_node \<and> new_to_old comma_g_node ! 1 = [2] \<and>
   dataset_classes (ps_dataset comma_path_sanity) ! 2 = ''cat,tabby'' \<and>
   (\<exists>A. get_node_weights comma_path_sanity comma_g_node = Inr A \<and>
        rows A ! 1 = replicate (length (dataset_classes (ps_dataset comma_path_sanity))) 0) \<and>
   get_node_weights comma_path_sanity comma_g_node =
     Inr \<lparr> shape = (3, 4), rows = [[0, 1, 0, 0], [0, 0, 0, 0], [0, 0, 0, 0]] \<rparr>"
proof -
  have cls: "dataset_classes (ps_dataset comma_path_sanity) = comma_classes"
    by (simp add: comma_path_sanity_def)
  have init: "Node_init ''g'' example_tree example_wnids
      (dataset_classes (ps_dataset comma_path_sanity)) = Inr comma_g_node"
    unfolding cls by (rule Node_init_comma_g)
  have new: "1 < num_classes comma_g_node" by (simp add: comma_g_node_def)
  have b: "new_to_old comma_g_node ! 1 = [2]" by (simp add: comma_g_node_def)
  have nm: "dataset_classes (ps_dataset comma_path_sanity) ! 2 = ''cat,tabby''"
    by (simp add: cls comma_classes_def)
  have comma: "CHR '','' \<in> set (dataset_classes (ps_dataset comma_path_sanity) ! 2)"
    unfolding nm by simp
  have ev: "get_node_weights comma_path_sanity comma_g_node =
     Inr \<lparr> shape = (3, 4), rows = [[0, 1, 0, 0], [0, 0, 0, 0], [0, 0, 0, 0]] \<rparr>"
    by (simp add: get_node_weights_def comma_path_sanity_def comma_g_node_def
        comma_classes_def is_leaf_name_def py_index_def ndarray_setitem_def np_zeros_def
        numeral_3_eq_3)
  from comma_class_name_gives_zero_row [OF init new b comma] init new b nm ev
  show ?thesis by blast
qed















end
